theory Spec2Isabelle
  imports
    Main
    "HOL-Library.Multiset"
    "HOL-Library.Product_Lexorder"
    "HOL-Library.Char_ord"
    "HOL-Library.List_Lexorder"
begin

section \<open>Blog series utilities: grouping, ordering and navigation\<close>

text \<open>
  The development embeds the three series utilities of the blog,
  \<^verbatim>\<open>getUniqueSeries\<close>, \<^verbatim>\<open>getPostsBySeries\<close> and \<^verbatim>\<open>getSeriesNavigation\<close>.
  The two helpers they import, \<^verbatim>\<open>postFilter\<close> and \<^verbatim>\<open>slugifyStr\<close>, and the platform
  function \<^verbatim>\<open>String.prototype.localeCompare\<close> are parameters of the embedded functions,
  so every theorem holds for any eligibility predicate, any slug function and (where stated)
  any consistent comparison of display names.
\<close>

subsection \<open>Collection entries\<close>

text \<open>
  A \<^verbatim>\<open>CollectionEntry<"blog">\<close> carries an \<^verbatim>\<open>id\<close> and its front matter \<^verbatim>\<open>data\<close>.
  Optional front-matter fields are options; \<^verbatim>\<open>pubDatetime\<close> is kept as the integer
  that \<^verbatim>\<open>getTime()\<close> returns (milliseconds), \<^verbatim>\<open>seriesOrder\<close> as an integer.
\<close>

record post_data =
  pubDatetime :: int
  draft :: "bool option"
  series :: "string option"
  seriesOrder :: "int option"

record post =
  id_post :: string
  data :: post_data

text \<open>
  JavaScript truthiness of an optional string: \<^verbatim>\<open>undefined\<close> and the empty string are
  falsy, every other string is truthy.
\<close>

fun truthy :: "string option \<Rightarrow> bool" where
  "truthy None = False"
| "truthy (Some s) = (s \<noteq> [])"

subsection \<open>Array operations\<close>

text \<open>
  \<^verbatim>\<open>Array.prototype.sort(cmp)\<close> is stable, and for a consistent comparator its result is
  the unique stable sorted arrangement of the array; it is embedded as a stable insertion
  sort that places \<open>x\<close> before the first element \<open>y\<close> with \<open>cmp x y \<le> 0\<close>.
\<close>

fun insort_cmp :: "('a \<Rightarrow> 'a \<Rightarrow> int) \<Rightarrow> 'a \<Rightarrow> 'a list \<Rightarrow> 'a list" where
  "insort_cmp cmp x [] = [x]"
| "insort_cmp cmp x (y # ys) =
     (if cmp x y \<le> 0 then x # y # ys else y # insort_cmp cmp x ys)"

definition array_sort :: "('a \<Rightarrow> 'a \<Rightarrow> int) \<Rightarrow> 'a list \<Rightarrow> 'a list" where
  "array_sort cmp xs = foldr (insort_cmp cmp) xs []"

text \<open>\<^verbatim>\<open>Array.prototype.findIndex\<close>: the first index whose element satisfies the
  predicate, \<open>-1\<close> when there is none.\<close>

fun findIndex :: "('a \<Rightarrow> bool) \<Rightarrow> 'a list \<Rightarrow> int" where
  "findIndex P [] = - 1"
| "findIndex P (x # xs) =
     (if P x then 0
      else (let r = findIndex P xs in if r = - 1 then - 1 else r + 1))"

text \<open>Indexed read \<^verbatim>\<open>xs[i]\<close>: out of range JavaScript yields \<^verbatim>\<open>undefined\<close> and does
  not raise; the embedding yields \<open>None\<close> there.\<close>

definition at :: "'a list \<Rightarrow> int \<Rightarrow> 'a option" where
  "at xs i = (if 0 \<le> i \<and> i < int (length xs) then Some (xs ! nat i) else None)"

subsection \<open>getPostsBySeries\<close>

text \<open>The comparator passed to \<^verbatim>\<open>sort\<close> in \<^verbatim>\<open>getPostsBySeries\<close>.\<close>

definition seriesCompare :: "post \<Rightarrow> post \<Rightarrow> int" where
  "seriesCompare a b =
     (let orderA = (case seriesOrder (data a) of Some n \<Rightarrow> n | None \<Rightarrow> 999);
          orderB = (case seriesOrder (data b) of Some n \<Rightarrow> n | None \<Rightarrow> 999)
      in if orderA \<noteq> orderB then orderA - orderB
         else pubDatetime (data a) - pubDatetime (data b))"

definition getPostsBySeries ::
  "(post \<Rightarrow> bool) \<Rightarrow> (string \<Rightarrow> string) \<Rightarrow> post list \<Rightarrow> string \<Rightarrow> post list" where
  "getPostsBySeries postFilter slugifyStr posts srs =
     array_sort seriesCompare
       (filter (\<lambda>post. truthy (series (data post)) \<and>
                        slugifyStr (the (series (data post))) = srs)
          (filter postFilter posts))"

subsection \<open>getSeriesNavigation\<close>

record SeriesNavigation =
  prevPost :: "post option"
  nextPost :: "post option"
  currentIndex :: int
  totalPosts :: int
  seriesName :: string

definition getSeriesNavigation ::
  "(post \<Rightarrow> bool) \<Rightarrow> (string \<Rightarrow> string) \<Rightarrow> post list \<Rightarrow> post \<Rightarrow> SeriesNavigation option" where
  "getSeriesNavigation postFilter slugifyStr posts currentPost =
     (if \<not> truthy (series (data currentPost)) then None
      else
        (let seriesSlug = slugifyStr (the (series (data currentPost)));
             seriesPosts = getPostsBySeries postFilter slugifyStr posts seriesSlug;
             currentIdx = findIndex (\<lambda>post. id_post post = id_post currentPost) seriesPosts
         in if currentIdx = - 1 then None
            else Some
              \<lparr> prevPost = (if currentIdx > 0 then at seriesPosts (currentIdx - 1) else None),
                nextPost = (if currentIdx < int (length seriesPosts) - 1
                            then at seriesPosts (currentIdx + 1) else None),
                currentIndex = currentIdx + 1,
                totalPosts = int (length seriesPosts),
                seriesName = the (series (data currentPost)) \<rparr>))"

subsection \<open>getUniqueSeries\<close>

text \<open>
  The \<^verbatim>\<open>Map<string, { seriesName; count }>\<close> keeps its keys in insertion order, which is
  the order \<^verbatim>\<open>entries()\<close> yields them in; it is an association list with unique keys.
  \<^verbatim>\<open>map_set\<close> overwrites in place or appends, \<^verbatim>\<open>map_modify\<close> is the in-place update
  of the object that \<^verbatim>\<open>get\<close> returns.
\<close>

record series_info =
  info_seriesName :: string
  info_count :: int

record Series =
  series_of :: string
  seriesName_of :: string
  count_of :: int

fun map_has :: "('k \<times> 'v) list \<Rightarrow> 'k \<Rightarrow> bool" where
  "map_has [] k = False"
| "map_has ((k', v) # m) k = (k' = k \<or> map_has m k)"

fun map_set :: "('k \<times> 'v) list \<Rightarrow> 'k \<Rightarrow> 'v \<Rightarrow> ('k \<times> 'v) list" where
  "map_set [] k v = [(k, v)]"
| "map_set ((k', v') # m) k v = (if k' = k then (k, v) # m else (k', v') # map_set m k v)"

fun map_modify :: "('k \<times> 'v) list \<Rightarrow> 'k \<Rightarrow> ('v \<Rightarrow> 'v) \<Rightarrow> ('k \<times> 'v) list" where
  "map_modify [] k f = []"
| "map_modify ((k', v) # m) k f =
     (if k' = k then (k', f v) # m else (k', v) # map_modify m k f)"

text \<open>The body of the \<^verbatim>\<open>forEach\<close> callback. The non-null assertion
  \<^verbatim>\<open>post.data.series!\<close> is \<open>the\<close>: the callback only runs on posts that passed the
  truthiness filter.\<close>

definition addPost ::
  "(string \<Rightarrow> string) \<Rightarrow> (string \<times> series_info) list \<Rightarrow> post \<Rightarrow> (string \<times> series_info) list" where
  "addPost slugifyStr seriesMap post =
     (let sName = the (series (data post));
          seriesSlug = slugifyStr sName
      in if map_has seriesMap seriesSlug
         then map_modify seriesMap seriesSlug (\<lambda>e. e\<lparr>info_count := info_count e + 1\<rparr>)
         else map_set seriesMap seriesSlug \<lparr>info_seriesName = sName, info_count = 1\<rparr>)"

definition toSeries :: "string \<times> series_info \<Rightarrow> Series" where
  "toSeries e =
     \<lparr> series_of = fst e, seriesName_of = info_seriesName (snd e), count_of = info_count (snd e) \<rparr>"

definition getUniqueSeries ::
  "(post \<Rightarrow> bool) \<Rightarrow> (string \<Rightarrow> string) \<Rightarrow> (string \<Rightarrow> string \<Rightarrow> int) \<Rightarrow> post list \<Rightarrow> Series list" where
  "getUniqueSeries postFilter slugifyStr localeCompare posts =
     (let seriesMap =
            foldl (addPost slugifyStr) []
              (filter (\<lambda>post. truthy (series (data post))) (filter postFilter posts))
      in array_sort (\<lambda>a b. localeCompare (seriesName_of a) (seriesName_of b))
           (map toSeries seriesMap))"

subsection \<open>The order that the comparator induces\<close>

text \<open>
  \<open>seriesCompare\<close> compares two posts by the pair made of \<^verbatim>\<open>seriesOrder ?? 999\<close> and the
  publication time, ordered lexicographically.
\<close>

definition postKey :: "post \<Rightarrow> int \<times> int" where
  "postKey p = ((case seriesOrder (data p) of Some n \<Rightarrow> n | None \<Rightarrow> 999), pubDatetime (data p))"

subsection \<open>Collaborators\<close>

text \<open>
  Modelled from the spec: the slugification collaborator \<^verbatim>\<open>slugifyStr\<close>
  (\<^verbatim>\<open>./slugify\<close> is imported by the utilities but is not among the sources). The spec
  describes the series identifier as the case-folded, punctuation-stripped,
  space-to-hyphen form of the name, insensitive to trailing whitespace. The theorems below
  hold for every slug function; this one instantiates them on examples.
\<close>

definition lowerChar :: "char \<Rightarrow> char" where
  "lowerChar c =
     (case map_of (zip ''ABCDEFGHIJKLMNOPQRSTUVWXYZ'' ''abcdefghijklmnopqrstuvwxyz'') c of
        Some l \<Rightarrow> l | None \<Rightarrow> c)"

definition wordChar :: "char \<Rightarrow> bool" where
  "wordChar c = (c \<in> set ''abcdefghijklmnopqrstuvwxyz0123456789'')"

fun slugWords :: "string \<Rightarrow> string \<Rightarrow> string list" where
  "slugWords w [] = (if w = [] then [] else [w])"
| "slugWords w (c # cs) =
     (if wordChar c then slugWords (w @ [c]) cs
      else if c = CHR '' '' \<or> c = CHR ''-''
        then (if w = [] then slugWords [] cs else w # slugWords [] cs)
      else slugWords w cs)"

fun joinHyphen :: "string list \<Rightarrow> string" where
  "joinHyphen [] = []"
| "joinHyphen [w] = w"
| "joinHyphen (w # v # ws) = w @ ''-'' @ joinHyphen (v # ws)"

definition normalize_str :: "string \<Rightarrow> string" where
  "normalize_str s = joinHyphen (slugWords [] (map lowerChar s))"

text \<open>
  Modelled from the spec: the Post Filter \<^verbatim>\<open>postFilter\<close> (\<^verbatim>\<open>./postFilter\<close> is imported
  by the utilities but is not among the sources): a post is eligible when it is published,
  not future-dated and not explicitly excluded. The build time \<open>now\<close> is a parameter.
\<close>

definition isEligible :: "int \<Rightarrow> post \<Rightarrow> bool" where
  "isEligible now p = (draft (data p) \<noteq> Some True \<and> pubDatetime (data p) \<le> now)"

text \<open>
  \<^verbatim>\<open>localeCompare\<close> is a platform function and stays a parameter. Comparison by code
  unit is one consistent comparator, used where an example needs a concrete one.
\<close>

definition codeUnitCompare :: "string \<Rightarrow> string \<Rightarrow> int" where
  "codeUnitCompare a b = (if a < b then - 1 else if b < a then 1 else 0)"

subsection \<open>An example collection\<close>

text \<open>
  Seven entries: three published posts of the series ``Learning GPUI'' (one of them spells
  the name differently and has no \<^verbatim>\<open>seriesOrder\<close>), a draft of the same series, one post
  of another series, a page without series and a post whose series is the empty string.
\<close>

definition gpuiHello :: post where
  "gpuiHello = \<lparr> id_post = ''gpui-hello'',
      data = \<lparr> pubDatetime = 100, draft = None, series = Some ''Learning GPUI'',
               seriesOrder = Some 1 \<rparr> \<rparr>"

definition gpuiInteractivity :: post where
  "gpuiInteractivity = \<lparr> id_post = ''gpui-interactivity'',
      data = \<lparr> pubDatetime = 200, draft = None, series = Some ''Learning GPUI'',
               seriesOrder = Some 2 \<rparr> \<rparr>"

definition gpuiAppendix :: post where
  "gpuiAppendix = \<lparr> id_post = ''gpui-appendix'',
      data = \<lparr> pubDatetime = 50, draft = None, series = Some ''learning gpui '',
               seriesOrder = None \<rparr> \<rparr>"

definition gpuiDraft :: post where
  "gpuiDraft = \<lparr> id_post = ''gpui-draft'',
      data = \<lparr> pubDatetime = 400, draft = Some True, series = Some ''Learning GPUI'',
               seriesOrder = Some 3 \<rparr> \<rparr>"

definition axumIntro :: post where
  "axumIntro = \<lparr> id_post = ''axum-intro'',
      data = \<lparr> pubDatetime = 300, draft = None, series = Some ''Backend Engineering in Axum'',
               seriesOrder = Some 1 \<rparr> \<rparr>"

definition aboutPage :: post where
  "aboutPage = \<lparr> id_post = ''about'',
      data = \<lparr> pubDatetime = 10, draft = None, series = None, seriesOrder = None \<rparr> \<rparr>"

definition untitledNote :: post where
  "untitledNote = \<lparr> id_post = ''untitled'',
      data = \<lparr> pubDatetime = 20, draft = None, series = Some [], seriesOrder = None \<rparr> \<rparr>"

definition examplePosts :: "post list" where
  "examplePosts =
     [gpuiAppendix, aboutPage, gpuiInteractivity, axumIntro, gpuiHello, untitledNote, gpuiDraft]"

text \<open>A post whose explicit order exceeds 999, and two posts that agree on order and
  publication time.\<close>

definition gpuiLate :: post where
  "gpuiLate = \<lparr> id_post = ''gpui-late'',
      data = \<lparr> pubDatetime = 500, draft = None, series = Some ''Learning GPUI'',
               seriesOrder = Some 1000 \<rparr> \<rparr>"

definition twinA :: post where
  "twinA = \<lparr> id_post = ''twin-a'',
      data = \<lparr> pubDatetime = 100, draft = None, series = Some ''Learning GPUI'',
               seriesOrder = Some 1 \<rparr> \<rparr>"

definition twinB :: post where
  "twinB = \<lparr> id_post = ''twin-b'',
      data = \<lparr> pubDatetime = 100, draft = None, series = Some ''Learning GPUI'',
               seriesOrder = Some 1 \<rparr> \<rparr>"

section \<open>Properties\<close>

subsection \<open>Sorting\<close>

lemma mset_insort_cmp: "mset (insort_cmp cmp x xs) = add_mset x (mset xs)"
  by (induction xs) auto

lemma mset_array_sort: "mset (array_sort cmp xs) = mset xs"
  unfolding array_sort_def by (induction xs) (auto simp: mset_insort_cmp)

lemma insort_cmp_key:
  assumes "\<And>x y. (cmp x y \<le> 0) = (f x \<le> f y)"
  shows "insort_cmp cmp x xs = insort_key f x xs"
  by (induction xs) (auto simp: assms)

lemma array_sort_key:
  assumes "\<And>x y. (cmp x y \<le> 0) = (f x \<le> f y)"
  shows "array_sort cmp xs = sort_key f xs"
  unfolding array_sort_def sort_key_def
  by (induction xs) (auto simp: insort_cmp_key [OF assms])

lemma seriesCompare_le: "(seriesCompare a b \<le> 0) = (postKey a \<le> postKey b)"
  by (auto simp: seriesCompare_def postKey_def Let_def split: option.splits)

lemma seriesCompare_zero: "(seriesCompare a b = 0) = (postKey a = postKey b)"
  by (auto simp: seriesCompare_def postKey_def Let_def split: option.splits)

lemma getPostsBySeries_sort_key:
  "getPostsBySeries pf sl posts s =
     sort_key postKey (filter (\<lambda>post. truthy (series (data post)) \<and> sl (the (series (data post))) = s) (filter pf posts))"
  unfolding getPostsBySeries_def by (rule array_sort_key) (rule seriesCompare_le)

lemma mset_getPostsBySeries:
  "mset (getPostsBySeries pf sl posts s) =
     mset (filter (\<lambda>p. pf p \<and> truthy (series (data p)) \<and> sl (the (series (data p))) = s) posts)"
  unfolding getPostsBySeries_def mset_array_sort by (simp add: conj_commute)

lemma set_getPostsBySeries:
  "set (getPostsBySeries pf sl posts s) =
     {p \<in> set posts. pf p \<and> truthy (series (data p)) \<and> sl (the (series (data p))) = s}"
proof -
  have "set (getPostsBySeries pf sl posts s) = set_mset (mset (getPostsBySeries pf sl posts s))"
    by (simp only: set_mset_mset)
  also have "\<dots> = set (filter (\<lambda>p. pf p \<and> truthy (series (data p)) \<and> sl (the (series (data p))) = s) posts)"
    by (simp only: mset_getPostsBySeries set_mset_mset)
  finally show ?thesis by (simp only: set_filter)
qed

lemma sorted_getPostsBySeries: "sorted (map postKey (getPostsBySeries pf sl posts s))"
  unfolding getPostsBySeries_sort_key by (rule sorted_sort_key)

subsection \<open>Searching and navigation\<close>

lemma findIndex_bounds: "- 1 \<le> findIndex P xs \<and> findIndex P xs < int (length xs)"
  by (induction xs) (auto simp: Let_def)

lemma findIndex_none: "(findIndex P xs = - 1) = (\<forall>x \<in> set xs. \<not> P x)"
proof (induction xs)
  case Nil
  show ?case by simp
next
  case (Cons x xs)
  have "- 1 \<le> findIndex P xs" using findIndex_bounds [of P xs] by simp
  then show ?case using Cons by (auto simp: Let_def)
qed

lemma findIndex_found:
  assumes "findIndex P xs \<noteq> - 1"
  shows "0 \<le> findIndex P xs \<and> findIndex P xs < int (length xs) \<and> P (xs ! nat (findIndex P xs))"
  using assms
proof (induction xs)
  case Nil
  then show ?case by simp
next
  case (Cons x xs)
  show ?case
  proof (cases "P x")
    case True
    then show ?thesis by simp
  next
    case False
    then have ne: "findIndex P xs \<noteq> - 1" using Cons.prems by (auto simp: Let_def)
    then have eq: "findIndex P (x # xs) = findIndex P xs + 1" using False by (simp add: Let_def)
    from Cons.IH [OF ne] have ih: "0 \<le> findIndex P xs" "findIndex P xs < int (length xs)"
      "P (xs ! nat (findIndex P xs))" by simp_all
    have "nat (findIndex P xs + 1) = Suc (nat (findIndex P xs))" using ih(1) by simp
    then show ?thesis unfolding eq using ih by simp
  qed
qed

lemma findIndex_first:
  assumes "i < length xs" and "P (xs ! i)" and "\<forall>j < i. \<not> P (xs ! j)"
  shows "findIndex P xs = int i"
  using assms
proof (induction xs arbitrary: i)
  case Nil
  then show ?case by simp
next
  case (Cons x xs)
  show ?case
  proof (cases i)
    case 0
    then show ?thesis using Cons.prems by simp
  next
    case (Suc n)
    have nx: "\<not> P x" using Cons.prems(3) Suc by auto
    have "findIndex P xs = int n"
    proof (rule Cons.IH)
      show "n < length xs" using Cons.prems(1) Suc by simp
      show "P (xs ! n)" using Cons.prems(2) Suc by simp
      show "\<forall>j<n. \<not> P (xs ! j)"
      proof (intro allI impI)
        fix j assume "j < n"
        then have "Suc j < i" using Suc by simp
        then have "\<not> P ((x # xs) ! Suc j)" using Cons.prems(3) by blast
        then show "\<not> P (xs ! j)" by simp
      qed
    qed
    then show ?thesis using nx Suc by (simp add: Let_def)
  qed
qed

lemma findIndex_distinct:
  assumes "distinct (map f xs)" and "i < length xs" and "f (xs ! i) = c"
  shows "findIndex (\<lambda>x. f x = c) xs = int i"
proof (rule findIndex_first)
  show "i < length xs" by fact
  show "f (xs ! i) = c" by fact
  show "\<forall>j<i. f (xs ! j) \<noteq> c"
  proof (intro allI impI)
    fix j assume "j < i"
    then have "map f xs ! j \<noteq> map f xs ! i"
      using assms(1,2) by (simp add: nth_eq_iff_index_eq del: nth_map)
    then show "f (xs ! j) \<noteq> c" using \<open>j < i\<close> assms(2,3) by simp
  qed
qed

lemma distinct_ids_getPostsBySeries:
  assumes "distinct (map id_post posts)"
  shows "distinct (map id_post (getPostsBySeries pf sl posts s))"
proof -
  let ?m = "\<lambda>p. pf p \<and> truthy (series (data p)) \<and> sl (the (series (data p))) = s"
  have a: "mset (map id_post (getPostsBySeries pf sl posts s)) = mset (map id_post (filter ?m posts))"
    by (simp only: mset_map mset_getPostsBySeries)
  have "distinct (map id_post (filter ?m posts))"
    using assms by (rule distinct_map_filter)
  then show ?thesis by (simp only: mset_eq_imp_distinct_iff [OF a])
qed

lemma getSeriesNavigation_found:
  assumes tr: "truthy (series (data cur))"
      and sp: "sp = getPostsBySeries pf sl posts (sl (the (series (data cur))))"
      and fi: "findIndex (\<lambda>post. id_post post = id_post cur) sp = int i"
      and i: "i < length sp"
  shows "getSeriesNavigation pf sl posts cur =
     Some \<lparr> prevPost = (if i > 0 then Some (sp ! (i - 1)) else None),
            nextPost = (if i < length sp - 1 then Some (sp ! (i + 1)) else None),
            currentIndex = int i + 1, totalPosts = int (length sp),
            seriesName = the (series (data cur)) \<rparr>"
proof -
  have prev: "at sp (int i - 1) = Some (sp ! (i - 1))" if "i > 0"
    using i that by (simp add: at_def nat_diff_distrib')
  have nxt: "at sp (int i + 1) = Some (sp ! (i + 1))" if "i < length sp - 1"
    using that by (simp add: at_def nat_add_distrib)
  have lt: "(int i < int (length sp) - 1) = (i < length sp - 1)" using i by auto
  have ne: "int i \<noteq> - 1" by simp
  have pos: "(0 < int i) = (0 < i)" by simp
  show ?thesis
    unfolding getSeriesNavigation_def Let_def sp [symmetric] fi lt pos
    using tr ne prev nxt by (cases "0 < i"; cases "i < length sp - 1") simp_all
qed

lemma getSeriesNavigation_seriesName:
  assumes "getSeriesNavigation pf sl posts c = Some r"
  shows "series (data c) = Some (seriesName r)"
proof -
  have tr: "truthy (series (data c))"
    using assms by (cases "truthy (series (data c))") (simp_all add: getSeriesNavigation_def)
  then obtain n where n: "series (data c) = Some n" by (cases "series (data c)") simp_all
  let ?sp = "getPostsBySeries pf sl posts (sl n)"
  let ?i = "findIndex (\<lambda>post. id_post post = id_post c) ?sp"
  have "?i \<noteq> - 1"
    using assms tr n by (cases "?i = - 1") (simp_all add: getSeriesNavigation_def Let_def)
  then have "seriesName r = n"
    using assms tr n by (simp add: getSeriesNavigation_def Let_def) auto
  then show ?thesis using n by simp
qed

subsection \<open>The series map\<close>

lemma map_has_iff: "map_has m k = (k \<in> set (map fst m))"
  by (induction m) auto

lemma fst_map_modify: "map fst (map_modify m k f) = map fst m"
  by (induction m) auto

lemma fst_map_set:
  "map fst (map_set m k v) = (if k \<in> set (map fst m) then map fst m else map fst m @ [k])"
proof (induction m)
  case Nil
  show ?case by simp
next
  case (Cons a m)
  obtain k' v' where a: "a = (k', v')" by (cases a)
  show ?case using Cons unfolding a by (cases "k' = k") (simp_all split: if_splits)
qed

lemma map_of_map_set: "map_of (map_set m k v) k' = (if k' = k then Some v else map_of m k')"
  by (induction m) auto

lemma map_of_map_modify:
  "map_of (map_modify m k f) k' = (if k' = k then map_option f (map_of m k) else map_of m k')"
  by (induction m) auto

lemma find_snoc:
  "find P (xs @ [x]) = (case find P xs of None \<Rightarrow> (if P x then Some x else None) | Some y \<Rightarrow> Some y)"
  by (induction xs) auto

lemma find_filter: "find P (filter Q xs) = find (\<lambda>x. Q x \<and> P x) xs"
  by (induction xs) auto

lemma addPost_keys:
  "map fst (addPost sl m p) =
     (if sl (the (series (data p))) \<in> set (map fst m) then map fst m
      else map fst m @ [sl (the (series (data p)))])"
  by (simp add: addPost_def Let_def map_has_iff fst_map_modify fst_map_set)

lemma addPost_lookup:
  "map_of (addPost sl m p) k =
     (if k = sl (the (series (data p)))
      then (case map_of m k of
              None \<Rightarrow> Some \<lparr>info_seriesName = the (series (data p)), info_count = 1\<rparr>
            | Some e \<Rightarrow> Some (e\<lparr>info_count := info_count e + 1\<rparr>))
      else map_of m k)"
proof (cases "map_has m (sl (the (series (data p))))")
  case True
  then obtain e where "map_of m (sl (the (series (data p)))) = Some e"
    by (auto simp: map_has_iff dest: weak_map_of_SomeI)
  then show ?thesis using True
    by (simp add: addPost_def Let_def map_of_map_modify)
next
  case False
  then have "map_of m (sl (the (series (data p)))) = None"
    by (simp add: map_has_iff map_of_eq_None_iff)
  then show ?thesis using False
    by (simp add: addPost_def Let_def map_of_map_set)
qed

lemma fold_keys_distinct: "distinct (map fst (foldl (addPost sl) [] ps))"
  by (induction ps rule: rev_induct) (simp_all add: addPost_keys)

lemma fold_keys_set:
  "set (map fst (foldl (addPost sl) [] ps)) = (\<lambda>p. sl (the (series (data p)))) ` set ps"
  by (induction ps rule: rev_induct) (auto simp: addPost_keys)

lemma fold_lookup:
  "map_of (foldl (addPost sl) [] ps) k =
     (case find (\<lambda>p. sl (the (series (data p))) = k) ps of
        None \<Rightarrow> None
      | Some p \<Rightarrow> Some \<lparr>info_seriesName = the (series (data p)),
                         info_count = int (length (filter (\<lambda>p. sl (the (series (data p))) = k) ps))\<rparr>)"
proof (induction ps rule: rev_induct)
  case Nil
  show ?case by simp
next
  case (snoc x xs)
  show ?case
  proof (cases "sl (the (series (data x))) = k")
    case False
    then show ?thesis using snoc
      by (simp add: addPost_lookup find_snoc split: option.splits)
  next
    case True
    show ?thesis
    proof (cases "find (\<lambda>p. sl (the (series (data p))) = k) xs")
      case None
      then have "filter (\<lambda>p. sl (the (series (data p))) = k) xs = []"
        by (simp add: find_None_iff filter_empty_conv)
      then show ?thesis using True None snoc
        by (simp add: addPost_lookup find_snoc)
    next
      case (Some y)
      then show ?thesis using True snoc
        by (simp add: addPost_lookup find_snoc)
    qed
  qed
qed

subsection \<open>Sorting with an arbitrary comparator, and the result of getUniqueSeries\<close>

lemma set_array_sort: "set (array_sort cmp xs) = set xs"
proof -
  have "set (array_sort cmp xs) = set_mset (mset (array_sort cmp xs))"
    by (simp only: set_mset_mset)
  then show ?thesis by (simp only: mset_array_sort set_mset_mset)
qed

lemma set_insort_cmp: "set (insort_cmp cmp x xs) = insert x (set xs)"
proof -
  have "set (insort_cmp cmp x xs) = set_mset (mset (insort_cmp cmp x xs))"
    by (simp only: set_mset_mset)
  then show ?thesis by (simp add: mset_insort_cmp)
qed

lemma sorted_insort_cmp:
  assumes tot: "\<And>a b. cmp a b \<le> 0 \<or> cmp b a \<le> 0"
      and tr: "\<And>a b c. cmp a b \<le> 0 \<Longrightarrow> cmp b c \<le> 0 \<Longrightarrow> cmp a c \<le> 0"
      and s: "sorted_wrt (\<lambda>a b. cmp a b \<le> 0) ys"
  shows "sorted_wrt (\<lambda>a b. cmp a b \<le> 0) (insort_cmp cmp x ys)"
  using s
proof (induction ys)
  case Nil
  show ?case by simp
next
  case (Cons y ys)
  show ?case
  proof (cases "cmp x y \<le> 0")
    case True
    have "\<forall>z \<in> set ys. cmp x z \<le> 0"
    proof
      fix z assume "z \<in> set ys"
      then have "cmp y z \<le> 0" using Cons.prems by simp
      with True show "cmp x z \<le> 0" by (rule tr)
    qed
    then show ?thesis using True Cons.prems by simp
  next
    case False
    then have yx: "cmp y x \<le> 0" using tot [of x y] by simp
    have "sorted_wrt (\<lambda>a b. cmp a b \<le> 0) (insort_cmp cmp x ys)"
      using Cons.prems by (intro Cons.IH) simp
    then show ?thesis using False yx Cons.prems by (simp add: set_insort_cmp)
  qed
qed

lemma sorted_array_sort:
  assumes tot: "\<And>a b. cmp a b \<le> 0 \<or> cmp b a \<le> 0"
      and tr: "\<And>a b c. cmp a b \<le> 0 \<Longrightarrow> cmp b c \<le> 0 \<Longrightarrow> cmp a c \<le> 0"
  shows "sorted_wrt (\<lambda>a b. cmp a b \<le> 0) (array_sort cmp xs)"
proof (induction xs)
  case Nil
  show ?case by (simp add: array_sort_def)
next
  case (Cons x xs)
  have "array_sort cmp (x # xs) = insort_cmp cmp x (array_sort cmp xs)"
    by (simp add: array_sort_def)
  then show ?case using sorted_insort_cmp [OF tot tr Cons.IH] by simp
qed

lemma filter_distinct_key:
  assumes "distinct (map f xs)" and "x \<in> set xs"
  shows "filter (\<lambda>y. f y = f x) xs = [x]"
  using assms
proof (induction xs)
  case Nil
  then show ?case by simp
next
  case (Cons a xs)
  show ?case
  proof (cases "a = x")
    case True
    have "f x \<notin> f ` set xs" using Cons.prems(1) True by simp
    then have "\<forall>y \<in> set xs. f y \<noteq> f x" by (metis imageI)
    then have "filter (\<lambda>y. f y = f x) xs = []" by (simp add: filter_empty_conv)
    then show ?thesis using True by simp
  next
    case False
    then have x: "x \<in> set xs" using Cons.prems(2) by simp
    have "f a \<notin> f ` set xs" using Cons.prems(1) by simp
    then have "f a \<noteq> f x" using x by (metis imageI)
    moreover have "filter (\<lambda>y. f y = f x) xs = [x]" using Cons.prems(1) x by (intro Cons.IH) simp
    ultimately show ?thesis by simp
  qed
qed

lemma series_of_toSeries: "series_of \<circ> toSeries = fst"
  by (rule ext) (simp add: toSeries_def)

lemma getUniqueSeries_mset:
  "mset (getUniqueSeries pf sl lc posts) =
     mset (map toSeries (foldl (addPost sl) []
             (filter (\<lambda>post. truthy (series (data post))) (filter pf posts))))"
  unfolding getUniqueSeries_def Let_def by (rule mset_array_sort)

lemma getUniqueSeries_set:
  "set (getUniqueSeries pf sl lc posts) =
     toSeries ` set (foldl (addPost sl) []
             (filter (\<lambda>post. truthy (series (data post))) (filter pf posts)))"
  unfolding getUniqueSeries_def Let_def set_array_sort by simp

lemma getUniqueSeries_keys:
  "mset (map series_of (getUniqueSeries pf sl lc posts)) =
     mset (map fst (foldl (addPost sl) []
             (filter (\<lambda>post. truthy (series (data post))) (filter pf posts))))"
proof -
  have "mset (map series_of (getUniqueSeries pf sl lc posts)) =
        image_mset series_of (mset (getUniqueSeries pf sl lc posts))" by simp
  also have "\<dots> = mset (map (series_of \<circ> toSeries) (foldl (addPost sl) []
             (filter (\<lambda>post. truthy (series (data post))) (filter pf posts))))"
    unfolding getUniqueSeries_mset by (simp add: image_mset.compositionality)
  finally show ?thesis unfolding series_of_toSeries .
qed

lemma distinct_getUniqueSeries_keys: "distinct (map series_of (getUniqueSeries pf sl lc posts))"
proof -
  have "distinct (map fst (foldl (addPost sl) []
             (filter (\<lambda>post. truthy (series (data post))) (filter pf posts))))"
    by (rule fold_keys_distinct)
  then show ?thesis by (simp only: mset_eq_imp_distinct_iff [OF getUniqueSeries_keys])
qed

lemma getUniqueSeries_has:
  assumes "p \<in> set posts" and "pf p" and "truthy (series (data p))"
  shows "\<exists>e \<in> set (getUniqueSeries pf sl lc posts). series_of e = sl (the (series (data p)))"
proof -
  let ?el = "filter (\<lambda>post. truthy (series (data post))) (filter pf posts)"
  have "p \<in> set ?el" using assms by simp
  then have "sl (the (series (data p))) \<in> set (map fst (foldl (addPost sl) [] ?el))"
    unfolding fold_keys_set by (rule imageI)
  then have "sl (the (series (data p))) \<in> set_mset (mset (map series_of (getUniqueSeries pf sl lc posts)))"
    unfolding getUniqueSeries_keys by (simp only: set_mset_mset)
  then show ?thesis by auto
qed

lemma getUniqueSeries_entry:
  assumes "e \<in> set (getUniqueSeries pf sl lc posts)"
  shows "\<exists>p. find (\<lambda>p. pf p \<and> truthy (series (data p)) \<and> sl (the (series (data p))) = series_of e) posts = Some p
           \<and> seriesName_of e = the (series (data p))
           \<and> count_of e = int (length (filter (\<lambda>p. pf p \<and> truthy (series (data p)) \<and>
                                 sl (the (series (data p))) = series_of e) posts))"
proof -
  let ?el = "filter (\<lambda>post. truthy (series (data post))) (filter pf posts)"
  let ?M = "foldl (addPost sl) [] ?el"
  from assms obtain kv where kv: "kv \<in> set ?M" and e: "e = toSeries kv"
    unfolding getUniqueSeries_set by blast
  obtain k v where kvp: "kv = (k, v)" by (cases kv)
  have "distinct (map fst ?M)" by (rule fold_keys_distinct)
  then have "map_of ?M k = Some v" using kv kvp by simp
  then have lk: "(case find (\<lambda>p. sl (the (series (data p))) = k) ?el of
        None \<Rightarrow> None
      | Some p \<Rightarrow> Some \<lparr>info_seriesName = the (series (data p)),
                         info_count = int (length (filter (\<lambda>p. sl (the (series (data p))) = k) ?el))\<rparr>)
      = Some v"
    by (simp only: fold_lookup)
  then obtain p where p: "find (\<lambda>p. sl (the (series (data p))) = k) ?el = Some p"
    by (cases "find (\<lambda>p. sl (the (series (data p))) = k) ?el") simp_all
  have v: "v = \<lparr>info_seriesName = the (series (data p)),
                 info_count = int (length (filter (\<lambda>p. sl (the (series (data p))) = k) ?el))\<rparr>"
    using lk p by simp
  have fe: "find (\<lambda>p. sl (the (series (data p))) = k) ?el =
            find (\<lambda>p. pf p \<and> truthy (series (data p)) \<and> sl (the (series (data p))) = k) posts"
    by (simp only: find_filter)
  have fl: "filter (\<lambda>p. sl (the (series (data p))) = k) ?el =
            filter (\<lambda>p. pf p \<and> truthy (series (data p)) \<and> sl (the (series (data p))) = k) posts"
    by (simp add: conj_commute conj_left_commute)
  have k: "series_of e = k" using e kvp by (simp add: toSeries_def)
  have "find (\<lambda>p. pf p \<and> truthy (series (data p)) \<and> sl (the (series (data p))) = series_of e) posts = Some p"
    using p fe k by simp
  moreover have "seriesName_of e = the (series (data p))" using e kvp v by (simp add: toSeries_def)
  moreover have "count_of e = int (length (filter (\<lambda>p. pf p \<and> truthy (series (data p)) \<and>
                                 sl (the (series (data p))) = series_of e) posts))"
    using e kvp v fl k by (simp add: toSeries_def)
  ultimately show ?thesis by (intro exI [of _ p] conjI)
qed

lemma getUniqueSeries_empty:
  assumes "filter (\<lambda>p. pf p \<and> truthy (series (data p))) posts = []"
  shows "getUniqueSeries pf sl lc posts = []"
proof -
  have "filter (\<lambda>post. truthy (series (data post))) (filter pf posts) =
        filter (\<lambda>p. pf p \<and> truthy (series (data p))) posts"
    by (simp add: conj_commute)
  then show ?thesis using assms by (simp add: getUniqueSeries_def array_sort_def)
qed

section \<open>The claims\<close>

subsection \<open>Members of a series\<close>

text \<open>
  Claim C6. For every collection and target identifier, \<open>getPostsBySeries\<close> returns exactly
  the eligible posts whose series name is present and slugifies to the target: as
  multisets the result and the matching posts of the input agree, so no other post appears
  and every matching post appears as often as the input holds it (once, when the input has
  no duplicates). When no post matches, the result is the empty list.
\<close>

theorem getPostsBySeries_members:
  "mset (getPostsBySeries pf sl posts s) =
     mset (filter (\<lambda>p. pf p \<and> truthy (series (data p)) \<and> sl (the (series (data p))) = s) posts)
   \<and> (distinct posts \<longrightarrow> distinct (getPostsBySeries pf sl posts s))
   \<and> ((\<forall>p \<in> set posts. \<not> (pf p \<and> truthy (series (data p)) \<and> sl (the (series (data p))) = s))
        \<longrightarrow> getPostsBySeries pf sl posts s = [])"
proof (intro conjI impI)
  let ?m = "\<lambda>p. pf p \<and> truthy (series (data p)) \<and> sl (the (series (data p))) = s"
  show a: "mset (getPostsBySeries pf sl posts s) = mset (filter ?m posts)"
    by (rule mset_getPostsBySeries)
  show "distinct (getPostsBySeries pf sl posts s)" if "distinct posts"
  proof -
    have "distinct (filter ?m posts)" using that by (rule distinct_filter)
    then show ?thesis by (simp only: mset_eq_imp_distinct_iff [OF a])
  qed
  show "getPostsBySeries pf sl posts s = []" if "\<forall>p \<in> set posts. \<not> ?m p"
  proof -
    have "filter ?m posts = []" using that by (simp only: filter_empty_conv)
    then have "mset (getPostsBySeries pf sl posts s) = {#}" by (simp only: a mset.simps)
    then show ?thesis by (simp only: mset_zero_iff)
  qed
qed

text \<open>On the example collection: the three published posts of ``Learning GPUI'' are
  selected, the draft is not, and an identifier that no post has selects nothing.\<close>

theorem getPostsBySeries_members_witness:
  "mset (getPostsBySeries (isEligible 1000) normalize_str examplePosts ''learning-gpui'') =
     mset [gpuiAppendix, gpuiInteractivity, gpuiHello]
   \<and> distinct examplePosts
   \<and> distinct (getPostsBySeries (isEligible 1000) normalize_str examplePosts ''learning-gpui'')
   \<and> filter (\<lambda>p. isEligible 1000 p \<and> truthy (series (data p)) \<and>
                 normalize_str (the (series (data p))) = ''no-such-series'') examplePosts = []
   \<and> getPostsBySeries (isEligible 1000) normalize_str examplePosts ''no-such-series'' = []"
proof -
  have f: "filter (\<lambda>p. isEligible 1000 p \<and> truthy (series (data p)) \<and>
                      normalize_str (the (series (data p))) = ''learning-gpui'') examplePosts
           = [gpuiAppendix, gpuiInteractivity, gpuiHello]"
    by code_simp
  have d: "distinct examplePosts" by code_simp
  have e: "filter (\<lambda>p. isEligible 1000 p \<and> truthy (series (data p)) \<and>
                 normalize_str (the (series (data p))) = ''no-such-series'') examplePosts = []"
    by code_simp
  then have n: "\<forall>p \<in> set examplePosts.
          \<not> (isEligible 1000 p \<and> truthy (series (data p)) \<and>
             normalize_str (the (series (data p))) = ''no-such-series'')"
    by (simp only: filter_empty_conv)
  show ?thesis
    using getPostsBySeries_members
            [of "isEligible 1000" normalize_str examplePosts "''learning-gpui''"]
          getPostsBySeries_members
            [of "isEligible 1000" normalize_str examplePosts "''no-such-series''"] f d e n
    by simp
qed

subsection \<open>Order within a series\<close>

text \<open>
  Against claim C1 as stated (for any positive order): the sentinel for a missing
  \<^verbatim>\<open>seriesOrder\<close> is the number 999, not a value above every order. Next to a post whose
  explicit order is 1000, the post without order comes first.
\<close>

theorem missing_seriesOrder_before_large_order:
  "getPostsBySeries (isEligible 1000) normalize_str [gpuiLate, gpuiAppendix] ''learning-gpui''
     = [gpuiAppendix, gpuiLate]
   \<and> seriesOrder (data gpuiLate) = Some 1000
   \<and> seriesOrder (data gpuiAppendix) = None"
  by code_simp

text \<open>
  Claim C1, amended. In the result of \<open>getPostsBySeries\<close>, a post whose \<^verbatim>\<open>seriesOrder\<close> is
  present and below 999 stands before every post whose \<^verbatim>\<open>seriesOrder\<close> is absent: whenever
  position \<open>i\<close> holds a post with explicit order \<open>k < 999\<close> and position \<open>j\<close> holds a post
  without order, \<open>i < j\<close>.
\<close>

theorem missing_seriesOrder_after_small_order:
  assumes out: "out = getPostsBySeries pf sl posts s"
      and i: "i < length out" and j: "j < length out"
      and oi: "seriesOrder (data (out ! i)) = Some k" and k: "k < 999"
      and oj: "seriesOrder (data (out ! j)) = None"
  shows "i < j"
proof (rule ccontr)
  assume "\<not> i < j"
  then have "j \<le> i" by simp
  have "sorted (map postKey out)" unfolding out by (rule sorted_getPostsBySeries)
  then have "map postKey out ! j \<le> map postKey out ! i"
    using \<open>j \<le> i\<close> i by (simp only: sorted_iff_nth_mono length_map)
  then have "postKey (out ! j) \<le> postKey (out ! i)" using i j by (simp only: nth_map)
  then show False using oi oj k by (simp add: postKey_def)
qed

text \<open>On the example collection the post without order is last, after orders 1 and 2.\<close>

theorem missing_seriesOrder_after_small_order_witness:
  "getPostsBySeries (isEligible 1000) normalize_str examplePosts ''learning-gpui''
     = [gpuiHello, gpuiInteractivity, gpuiAppendix]
   \<and> seriesOrder (data gpuiHello) = Some 1 \<and> (1::int) < 999
   \<and> seriesOrder (data gpuiAppendix) = None \<and> (0::nat) < 2"
proof -
  have e: "getPostsBySeries (isEligible 1000) normalize_str examplePosts ''learning-gpui''
     = [gpuiHello, gpuiInteractivity, gpuiAppendix]" by code_simp
  have a: "seriesOrder (data gpuiHello) = Some 1" by code_simp
  have b: "seriesOrder (data gpuiAppendix) = None" by code_simp
  have "(0::nat) < 2"
    by (rule missing_seriesOrder_after_small_order
               [of "[gpuiHello, gpuiInteractivity, gpuiAppendix]" "isEligible 1000" normalize_str
                   examplePosts "''learning-gpui''" 0 2 1])
       (simp_all add: e a b)
  then show ?thesis using e a b by simp
qed

text \<open>
  Against claim C2 as stated: the comparator has no tie-break by \<^verbatim>\<open>id\<close>. Two distinct
  posts with the same order and the same publication time compare as equal, and the result
  keeps them in input order, here with the larger \<^verbatim>\<open>id\<close> first, so it is not sorted by the
  triple that ends in \<^verbatim>\<open>id\<close>.
\<close>

theorem getPostsBySeries_no_id_tiebreak:
  "getPostsBySeries (isEligible 1000) normalize_str [twinB, twinA] ''learning-gpui'' = [twinB, twinA]
   \<and> seriesCompare twinB twinA = 0
   \<and> twinB \<noteq> twinA
   \<and> seriesOrder (data twinB) = seriesOrder (data twinA)
   \<and> pubDatetime (data twinB) = pubDatetime (data twinA)
   \<and> id_post twinA < id_post twinB"
  by code_simp

text \<open>
  Claim C2, amended. For every collection and identifier the result of \<open>getPostsBySeries\<close>
  is sorted non-decreasing by the pair (\<^verbatim>\<open>seriesOrder ?? 999\<close>, publication time), which
  is the order the comparator decides by; the comparator returns 0 exactly for posts that
  agree on this pair (there is no tie-break by \<^verbatim>\<open>id\<close>); posts that agree on it keep
  their relative input order; and applying the function to its own result returns that
  result unchanged.
\<close>

theorem getPostsBySeries_sorted_stable:
  "sorted (map postKey (getPostsBySeries pf sl posts s))
   \<and> (\<forall>a b. (seriesCompare a b \<le> 0) = (postKey a \<le> postKey b))
   \<and> (\<forall>a b. (seriesCompare a b = 0) = (postKey a = postKey b))
   \<and> (\<forall>k. filter (\<lambda>p. postKey p = k) (getPostsBySeries pf sl posts s) =
            filter (\<lambda>p. postKey p = k)
              (filter (\<lambda>p. truthy (series (data p)) \<and> sl (the (series (data p))) = s)
                 (filter pf posts)))
   \<and> getPostsBySeries pf sl (getPostsBySeries pf sl posts s) s = getPostsBySeries pf sl posts s"
proof (intro conjI allI)
  let ?m = "\<lambda>p. truthy (series (data p)) \<and> sl (the (series (data p))) = s"
  let ?out = "getPostsBySeries pf sl posts s"
  show "sorted (map postKey ?out)" by (rule sorted_getPostsBySeries)
  show "(seriesCompare a b \<le> 0) = (postKey a \<le> postKey b)" for a b by (rule seriesCompare_le)
  show "(seriesCompare a b = 0) = (postKey a = postKey b)" for a b by (rule seriesCompare_zero)
  show "filter (\<lambda>p. postKey p = k) ?out = filter (\<lambda>p. postKey p = k) (filter ?m (filter pf posts))" for k
    unfolding getPostsBySeries_sort_key by (rule sort_key_stable)
  have f1: "filter pf ?out = ?out"
    by (rule filter_True) (simp add: set_getPostsBySeries)
  have f2: "filter ?m ?out = ?out"
    by (rule filter_True) (simp add: set_getPostsBySeries)
  have "getPostsBySeries pf sl ?out s = sort_key postKey (filter ?m (filter pf ?out))"
    by (rule getPostsBySeries_sort_key)
  also have "\<dots> = sort_key postKey ?out" by (simp only: f1 f2)
  also have "\<dots> = ?out"
    by (rule sort_key_id_if_sorted) (rule sorted_getPostsBySeries)
  finally show "getPostsBySeries pf sl ?out s = ?out" .
qed

text \<open>
  On the example collection the result for ``learning-gpui'' has the keys (1, 100),
  (2, 200), (999, 50), and selecting and ordering it again changes nothing.
\<close>

theorem getPostsBySeries_sorted_stable_witness:
  "sorted (map postKey (getPostsBySeries (isEligible 1000) normalize_str examplePosts ''learning-gpui''))
   \<and> map postKey (getPostsBySeries (isEligible 1000) normalize_str examplePosts ''learning-gpui'')
       = [(1, 100), (2, 200), (999, 50)]
   \<and> getPostsBySeries (isEligible 1000) normalize_str
         (getPostsBySeries (isEligible 1000) normalize_str examplePosts ''learning-gpui'')
         ''learning-gpui''
       = getPostsBySeries (isEligible 1000) normalize_str examplePosts ''learning-gpui''"
proof -
  note t = getPostsBySeries_sorted_stable
             [of "isEligible 1000" normalize_str examplePosts "''learning-gpui''"]
  have keys: "map postKey (getPostsBySeries (isEligible 1000) normalize_str examplePosts ''learning-gpui'')
       = [(1, 100), (2, 200), (999, 50)]"
    by code_simp
  from t [THEN conjunct1] keys t [THEN conjunct2, THEN conjunct2, THEN conjunct2, THEN conjunct2]
  show ?thesis by (intro conjI)
qed

subsection \<open>Navigation\<close>

text \<open>
  Claim C4. Let the identifiers of the collection be unique, let the current post carry a
  series name, and let it be found (by \<^verbatim>\<open>id\<close>) at index \<open>i\<close> of the ordered list \<open>sp\<close> of
  its series, of length \<open>L\<close>. Then \<open>getSeriesNavigation\<close> returns a result whose previous
  post is the element at \<open>i - 1\<close> if \<open>i > 0\<close> and null otherwise, whose next post is the element
  at \<open>i + 1\<close> if \<open>i < L - 1\<close> and null otherwise, whose position is \<open>i + 1\<close> and whose total
  is \<open>L\<close>. In particular the first post has no previous post, the last post has no next
  post, and in a series of exactly one post both neighbours are null and position and total
  are 1.
\<close>

theorem getSeriesNavigation_neighbours:
  assumes ids: "distinct (map id_post posts)"
      and tr: "truthy (series (data cur))"
      and sp: "sp = getPostsBySeries pf sl posts (sl (the (series (data cur))))"
      and i: "i < length sp"
      and found: "id_post (sp ! i) = id_post cur"
  shows "\<exists>r. getSeriesNavigation pf sl posts cur = Some r
     \<and> prevPost r = (if i > 0 then Some (sp ! (i - 1)) else None)
     \<and> nextPost r = (if i < length sp - 1 then Some (sp ! (i + 1)) else None)
     \<and> currentIndex r = int i + 1
     \<and> totalPosts r = int (length sp)
     \<and> (i = 0 \<longrightarrow> prevPost r = None)
     \<and> (i = length sp - 1 \<longrightarrow> nextPost r = None)
     \<and> (length sp = 1 \<longrightarrow> prevPost r = None \<and> nextPost r = None
            \<and> currentIndex r = 1 \<and> totalPosts r = 1)"
proof -
  have d: "distinct (map id_post sp)"
    unfolding sp using ids by (rule distinct_ids_getPostsBySeries)
  have fi: "findIndex (\<lambda>post. id_post post = id_post cur) sp = int i"
    using d i found by (rule findIndex_distinct)
  let ?r = "\<lparr> prevPost = (if i > 0 then Some (sp ! (i - 1)) else None),
              nextPost = (if i < length sp - 1 then Some (sp ! (i + 1)) else None),
              currentIndex = int i + 1, totalPosts = int (length sp),
              seriesName = the (series (data cur)) \<rparr>"
  have r: "getSeriesNavigation pf sl posts cur = Some ?r"
    using tr sp fi i by (rule getSeriesNavigation_found)
  have one: "i = 0" if "length sp = 1" using i that by simp
  show ?thesis
  proof (intro exI [of _ ?r] conjI impI)
    show "getSeriesNavigation pf sl posts cur = Some ?r" by (rule r)
  qed (simp_all add: one)
qed

text \<open>
  On the example collection: the second of three posts has both neighbours, position 2
  of 3; the only post of its series has none, position 1 of 1.
\<close>

theorem getSeriesNavigation_neighbours_witness:
  "distinct (map id_post examplePosts)
   \<and> truthy (series (data gpuiInteractivity))
   \<and> getPostsBySeries (isEligible 1000) normalize_str examplePosts
        (normalize_str (the (series (data gpuiInteractivity))))
       = [gpuiHello, gpuiInteractivity, gpuiAppendix]
   \<and> (\<exists>r. getSeriesNavigation (isEligible 1000) normalize_str examplePosts gpuiInteractivity = Some r
          \<and> prevPost r = Some gpuiHello \<and> nextPost r = Some gpuiAppendix
          \<and> currentIndex r = 2 \<and> totalPosts r = 3)
   \<and> getPostsBySeries (isEligible 1000) normalize_str examplePosts
        (normalize_str (the (series (data axumIntro)))) = [axumIntro]
   \<and> (\<exists>r. getSeriesNavigation (isEligible 1000) normalize_str examplePosts axumIntro = Some r
          \<and> prevPost r = None \<and> nextPost r = None \<and> currentIndex r = 1 \<and> totalPosts r = 1)"
proof -
  have d: "distinct (map id_post examplePosts)" by code_simp
  have t1: "truthy (series (data gpuiInteractivity))" by code_simp
  have t2: "truthy (series (data axumIntro))" by code_simp
  have sp1: "[gpuiHello, gpuiInteractivity, gpuiAppendix] =
      getPostsBySeries (isEligible 1000) normalize_str examplePosts
        (normalize_str (the (series (data gpuiInteractivity))))"
    by code_simp
  have sp2: "[axumIntro] =
      getPostsBySeries (isEligible 1000) normalize_str examplePosts
        (normalize_str (the (series (data axumIntro))))"
    by code_simp
  have i1: "1 < length [gpuiHello, gpuiInteractivity, gpuiAppendix]" by simp
  have i2: "0 < length [axumIntro]" by simp
  have f1: "id_post ([gpuiHello, gpuiInteractivity, gpuiAppendix] ! 1) = id_post gpuiInteractivity"
    by simp
  have f2: "id_post ([axumIntro] ! 0) = id_post axumIntro" by simp
  from getSeriesNavigation_neighbours [OF d t1 sp1 i1 f1]
  have r1: "\<exists>r. getSeriesNavigation (isEligible 1000) normalize_str examplePosts gpuiInteractivity = Some r
          \<and> prevPost r = Some gpuiHello \<and> nextPost r = Some gpuiAppendix
          \<and> currentIndex r = 2 \<and> totalPosts r = 3"
    by auto
  from getSeriesNavigation_neighbours [OF d t2 sp2 i2 f2]
  have r2: "\<exists>r. getSeriesNavigation (isEligible 1000) normalize_str examplePosts axumIntro = Some r
          \<and> prevPost r = None \<and> nextPost r = None \<and> currentIndex r = 1 \<and> totalPosts r = 1"
    by auto
  from d t1 sp1 [symmetric] r1 sp2 [symmetric] r2 show ?thesis by (intro conjI)
qed

text \<open>
  Claim C5. \<open>getSeriesNavigation\<close> is a total function with an optional result: it returns
  null exactly when the current post has no series name (absent or empty, the falsy values)
  or when no post with the current post's \<^verbatim>\<open>id\<close> occurs in the ordered member list of the
  current post's series identifier. In every other case it returns a populated result: its
  position lies between 1 and its total, the total is the length of the ordered member list,
  the member at that position has the current post's \<^verbatim>\<open>id\<close>, the series name is the
  current post's own, the previous post is the member before that position (null at
  position 1) and the next post is the member after it (null at the last position).
\<close>

theorem getSeriesNavigation_null_iff:
  "((getSeriesNavigation pf sl posts cur = None) =
     (\<not> truthy (series (data cur)) \<or>
      (\<forall>p \<in> set (getPostsBySeries pf sl posts (sl (the (series (data cur))))).
          id_post p \<noteq> id_post cur)))
   \<and> (\<forall>r. getSeriesNavigation pf sl posts cur = Some r \<longrightarrow>
          1 \<le> currentIndex r \<and> currentIndex r \<le> totalPosts r
        \<and> totalPosts r =
            int (length (getPostsBySeries pf sl posts (sl (the (series (data cur))))))
        \<and> id_post (getPostsBySeries pf sl posts (sl (the (series (data cur))))
                    ! nat (currentIndex r - 1)) = id_post cur
        \<and> series (data cur) = Some (seriesName r)
        \<and> prevPost r =
            (if 1 < currentIndex r
             then Some (getPostsBySeries pf sl posts (sl (the (series (data cur))))
                          ! nat (currentIndex r - 2))
             else None)
        \<and> nextPost r =
            (if currentIndex r < totalPosts r
             then Some (getPostsBySeries pf sl posts (sl (the (series (data cur))))
                          ! nat (currentIndex r))
             else None))"
proof (intro conjI allI impI)
  let ?sp = "getPostsBySeries pf sl posts (sl (the (series (data cur))))"
  let ?fi = "findIndex (\<lambda>post. id_post post = id_post cur) ?sp"
  show "(getSeriesNavigation pf sl posts cur = None) =
     (\<not> truthy (series (data cur)) \<or> (\<forall>p \<in> set ?sp. id_post p \<noteq> id_post cur))"
  proof (cases "truthy (series (data cur))")
    case False
    then show ?thesis by (simp add: getSeriesNavigation_def)
  next
    case True
    have "(getSeriesNavigation pf sl posts cur = None) = (?fi = - 1)"
      using True by (simp add: getSeriesNavigation_def Let_def)
    also have "\<dots> = (\<forall>p \<in> set ?sp. id_post p \<noteq> id_post cur)"
      by (rule findIndex_none)
    finally show ?thesis using True by simp
  qed
next
  let ?sp = "getPostsBySeries pf sl posts (sl (the (series (data cur))))"
  let ?fi = "findIndex (\<lambda>post. id_post post = id_post cur) ?sp"
  fix r assume some: "getSeriesNavigation pf sl posts cur = Some r"
  have tr: "truthy (series (data cur))"
    using some by (cases "truthy (series (data cur))") (simp_all add: getSeriesNavigation_def)
  have ne: "?fi \<noteq> - 1"
    using some tr by (cases "?fi = - 1") (simp_all add: getSeriesNavigation_def Let_def)
  define i where "i = nat ?fi"
  from findIndex_found [OF ne]
  have f0: "0 \<le> ?fi" and f1: "?fi < int (length ?sp)"
    and f2: "id_post (?sp ! nat ?fi) = id_post cur" by simp_all
  have fi: "?fi = int i" using f0 by (simp add: i_def)
  have il: "i < length ?sp" using f1 fi by simp
  have r: "r = \<lparr> prevPost = (if i > 0 then Some (?sp ! (i - 1)) else None),
            nextPost = (if i < length ?sp - 1 then Some (?sp ! (i + 1)) else None),
            currentIndex = int i + 1, totalPosts = int (length ?sp),
            seriesName = the (series (data cur)) \<rparr>"
    using getSeriesNavigation_found [OF tr refl fi il] some by simp
  have ci: "currentIndex r = int i + 1" and tp: "totalPosts r = int (length ?sp)"
    and sn: "seriesName r = the (series (data cur))"
    and pp: "prevPost r = (if i > 0 then Some (?sp ! (i - 1)) else None)"
    and np: "nextPost r = (if i < length ?sp - 1 then Some (?sp ! (i + 1)) else None)"
    unfolding r by simp_all
  show "1 \<le> currentIndex r" unfolding ci by simp
  show "currentIndex r \<le> totalPosts r" unfolding ci tp using il by simp
  show "totalPosts r = int (length ?sp)" by (rule tp)
  have f3: "id_post (?sp ! i) = id_post cur" using f2 unfolding i_def .
  have n0: "nat (int i + 1 - 1) = i" by simp
  show "id_post (?sp ! nat (currentIndex r - 1)) = id_post cur"
    unfolding ci n0 by (rule f3)
  show "series (data cur) = Some (seriesName r)"
    unfolding sn using tr by (cases "series (data cur)") simp_all
  have n2: "nat (int i + 1 - 2) = i - 1" by simp
  have n1: "nat (int i + 1) = i + 1" by simp
  have l1: "(1 < int i + 1) = (i > 0)" by simp
  have l2: "(int i + 1 < int (length ?sp)) = (i < length ?sp - 1)" using il by auto
  show "prevPost r = (if 1 < currentIndex r then Some (?sp ! nat (currentIndex r - 2)) else None)"
    unfolding ci pp l1 n2 by (rule refl)
  show "nextPost r = (if currentIndex r < totalPosts r then Some (?sp ! nat (currentIndex r)) else None)"
    unfolding ci tp np l2 n1 by (rule refl)
qed

text \<open>
  On the example collection: a page without series and a draft (which the filter removes
  from its own series) get null; a published post of a series gets a result, position 1 of
  3 with its own series name.
\<close>

theorem getSeriesNavigation_null_iff_witness:
  "\<not> truthy (series (data aboutPage))
   \<and> getSeriesNavigation (isEligible 1000) normalize_str examplePosts aboutPage = None
   \<and> truthy (series (data gpuiDraft))
   \<and> filter (\<lambda>p. id_post p = id_post gpuiDraft)
        (getPostsBySeries (isEligible 1000) normalize_str examplePosts
           (normalize_str (the (series (data gpuiDraft))))) = []
   \<and> getSeriesNavigation (isEligible 1000) normalize_str examplePosts gpuiDraft = None
   \<and> truthy (series (data gpuiHello))
   \<and> filter (\<lambda>p. id_post p = id_post gpuiHello)
        (getPostsBySeries (isEligible 1000) normalize_str examplePosts
           (normalize_str (the (series (data gpuiHello))))) = [gpuiHello]
   \<and> getSeriesNavigation (isEligible 1000) normalize_str examplePosts gpuiHello \<noteq> None
   \<and> getSeriesNavigation (isEligible 1000) normalize_str examplePosts gpuiHello =
       Some \<lparr>prevPost = None, nextPost = Some gpuiInteractivity, currentIndex = 1,
              totalPosts = 3, seriesName = ''Learning GPUI''\<rparr>
   \<and> series (data gpuiHello) = Some ''Learning GPUI''
   \<and> int (length (getPostsBySeries (isEligible 1000) normalize_str examplePosts
                      (normalize_str (the (series (data gpuiHello)))))) = 3"
proof -
  have a: "\<not> truthy (series (data aboutPage))" by code_simp
  have b: "truthy (series (data gpuiDraft))" by code_simp
  have c: "truthy (series (data gpuiHello))" by code_simp
  have fb: "filter (\<lambda>p. id_post p = id_post gpuiDraft)
        (getPostsBySeries (isEligible 1000) normalize_str examplePosts
           (normalize_str (the (series (data gpuiDraft))))) = []"
    by code_simp
  have fc: "filter (\<lambda>p. id_post p = id_post gpuiHello)
        (getPostsBySeries (isEligible 1000) normalize_str examplePosts
           (normalize_str (the (series (data gpuiHello))))) = [gpuiHello]"
    by code_simp
  have nb: "\<forall>p \<in> set (getPostsBySeries (isEligible 1000) normalize_str examplePosts
           (normalize_str (the (series (data gpuiDraft))))). id_post p \<noteq> id_post gpuiDraft"
    using fb by (simp only: filter_empty_conv)
  have "filter (\<lambda>p. id_post p = id_post gpuiHello)
        (getPostsBySeries (isEligible 1000) normalize_str examplePosts
           (normalize_str (the (series (data gpuiHello))))) \<noteq> []"
    unfolding fc by simp
  then have nc: "\<not> (\<forall>p \<in> set (getPostsBySeries (isEligible 1000) normalize_str examplePosts
           (normalize_str (the (series (data gpuiHello))))). id_post p \<noteq> id_post gpuiHello)"
    by (simp add: filter_empty_conv)
  have ra: "getSeriesNavigation (isEligible 1000) normalize_str examplePosts aboutPage = None"
    unfolding getSeriesNavigation_null_iff [THEN conjunct1] using a by (rule disjI1)
  have rb: "getSeriesNavigation (isEligible 1000) normalize_str examplePosts gpuiDraft = None"
    unfolding getSeriesNavigation_null_iff [THEN conjunct1] using nb by (rule disjI2)
  have rc: "getSeriesNavigation (isEligible 1000) normalize_str examplePosts gpuiHello \<noteq> None"
    unfolding getSeriesNavigation_null_iff [THEN conjunct1] using c nc by blast
  have ev: "getSeriesNavigation (isEligible 1000) normalize_str examplePosts gpuiHello =
       Some \<lparr>prevPost = None, nextPost = Some gpuiInteractivity, currentIndex = 1,
              totalPosts = 3, seriesName = ''Learning GPUI''\<rparr>"
    by code_simp
  note pop = getSeriesNavigation_null_iff [THEN conjunct2, THEN spec, THEN mp, OF ev]
  have sn: "series (data gpuiHello) = Some ''Learning GPUI''"
    using pop [THEN conjunct2, THEN conjunct2, THEN conjunct2, THEN conjunct2, THEN conjunct1]
    by simp
  have tp: "int (length (getPostsBySeries (isEligible 1000) normalize_str examplePosts
                      (normalize_str (the (series (data gpuiHello)))))) = 3"
    using pop [THEN conjunct2, THEN conjunct2, THEN conjunct1] by simp
  from a ra b fb rb c fc rc ev sn tp show ?thesis by (intro conjI)
qed

text \<open>
  Claim C10. Whenever \<open>getSeriesNavigation\<close> returns a result, its \<^verbatim>\<open>seriesName\<close> is the
  current post's own series string, verbatim. Hence two posts whose series strings differ
  (even if they slugify to the same identifier) receive different \<^verbatim>\<open>seriesName\<close> values.
\<close>

theorem getSeriesNavigation_raw_seriesName:
  assumes "getSeriesNavigation pf sl posts a = Some ra"
      and "getSeriesNavigation pf sl posts b = Some rb"
  shows "series (data a) = Some (seriesName ra) \<and> series (data b) = Some (seriesName rb)
     \<and> (series (data a) \<noteq> series (data b) \<longrightarrow> seriesName ra \<noteq> seriesName rb)"
  using getSeriesNavigation_seriesName [OF assms(1)] getSeriesNavigation_seriesName [OF assms(2)]
  by simp

text \<open>
  On the example collection, ``Learning GPUI'' and ``learning gpui '' slugify to the same
  identifier; each post's navigation carries its own spelling, whereas \<open>getUniqueSeries\<close>
  reports the spelling of the first post for the whole series.
\<close>

theorem getSeriesNavigation_raw_seriesName_witness:
  "getSeriesNavigation (isEligible 1000) normalize_str examplePosts gpuiHello =
     Some \<lparr>prevPost = None, nextPost = Some gpuiInteractivity, currentIndex = 1, totalPosts = 3,
            seriesName = ''Learning GPUI''\<rparr>
   \<and> getSeriesNavigation (isEligible 1000) normalize_str examplePosts gpuiAppendix =
     Some \<lparr>prevPost = Some gpuiInteractivity, nextPost = None, currentIndex = 3, totalPosts = 3,
            seriesName = ''learning gpui ''\<rparr>
   \<and> normalize_str ''Learning GPUI'' = normalize_str ''learning gpui ''
   \<and> series (data gpuiHello) = Some ''Learning GPUI''
   \<and> series (data gpuiAppendix) = Some ''learning gpui ''
   \<and> map seriesName_of (getUniqueSeries (isEligible 1000) normalize_str codeUnitCompare examplePosts)
       = [''Backend Engineering in Axum'', ''learning gpui '']"
proof -
  have a: "getSeriesNavigation (isEligible 1000) normalize_str examplePosts gpuiHello =
     Some \<lparr>prevPost = None, nextPost = Some gpuiInteractivity, currentIndex = 1, totalPosts = 3,
            seriesName = ''Learning GPUI''\<rparr>"
    by code_simp
  have b: "getSeriesNavigation (isEligible 1000) normalize_str examplePosts gpuiAppendix =
     Some \<lparr>prevPost = Some gpuiInteractivity, nextPost = None, currentIndex = 3, totalPosts = 3,
            seriesName = ''learning gpui ''\<rparr>"
    by code_simp
  have n: "normalize_str ''Learning GPUI'' = normalize_str ''learning gpui ''" by code_simp
  have u: "map seriesName_of (getUniqueSeries (isEligible 1000) normalize_str codeUnitCompare examplePosts)
       = [''Backend Engineering in Axum'', ''learning gpui '']"
    by code_simp
  note t = getSeriesNavigation_raw_seriesName [OF a b]
  have sa: "series (data gpuiHello) = Some ''Learning GPUI''" using t [THEN conjunct1] by simp
  have sb: "series (data gpuiAppendix) = Some ''learning gpui ''"
    using t [THEN conjunct2, THEN conjunct1] by simp
  from a b n sa sb u show ?thesis by (intro conjI)
qed

subsection \<open>The list of series\<close>

text \<open>
  Claim C3. For every collection, each eligible post \<open>p\<close> with a non-empty series name
  contributes to exactly one summary of \<open>getUniqueSeries\<close>: exactly one entry of the result
  has the slug of \<open>p\<close>'s series name as its identifier, and the count of that entry is the
  number of eligible posts with a non-empty series name that slugifies to this identifier.
  Posts whose names differ only by normalization share the slug, hence the entry.
\<close>

theorem getUniqueSeries_grouping:
  assumes "p \<in> set posts" and "pf p" and "truthy (series (data p))"
  shows "\<exists>e. filter (\<lambda>e. series_of e = sl (the (series (data p))))
               (getUniqueSeries pf sl lc posts) = [e]
     \<and> count_of e =
         int (length (filter (\<lambda>q. pf q \<and> truthy (series (data q)) \<and>
                sl (the (series (data q))) = sl (the (series (data p)))) posts))"
proof -
  from getUniqueSeries_has [where p = p and pf = pf and sl = sl and lc = lc, OF assms]
  obtain e where e: "e \<in> set (getUniqueSeries pf sl lc posts)"
    and k: "series_of e = sl (the (series (data p)))" by blast
  have "filter (\<lambda>y. series_of y = series_of e) (getUniqueSeries pf sl lc posts) = [e]"
    using distinct_getUniqueSeries_keys e by (rule filter_distinct_key)
  then have one: "filter (\<lambda>e. series_of e = sl (the (series (data p))))
               (getUniqueSeries pf sl lc posts) = [e]"
    unfolding k .
  from getUniqueSeries_entry [OF e]
  have "count_of e = int (length (filter (\<lambda>p. pf p \<and> truthy (series (data p)) \<and>
                                 sl (the (series (data p))) = series_of e) posts))"
    by blast
  then have "count_of e =
         int (length (filter (\<lambda>q. pf q \<and> truthy (series (data q)) \<and>
                sl (the (series (data q))) = sl (the (series (data p)))) posts))"
    unfolding k .
  with one show ?thesis by (intro exI [of _ e] conjI)
qed

text \<open>
  On the example collection the three published posts of ``Learning GPUI'', spelled in
  two ways, are counted in one summary.
\<close>

theorem getUniqueSeries_grouping_witness:
  "gpuiHello \<in> set examplePosts \<and> isEligible 1000 gpuiHello \<and> truthy (series (data gpuiHello))
   \<and> normalize_str (the (series (data gpuiHello))) = normalize_str (the (series (data gpuiAppendix)))
   \<and> filter (\<lambda>e. series_of e = normalize_str (the (series (data gpuiHello))))
        (getUniqueSeries (isEligible 1000) normalize_str codeUnitCompare examplePosts)
       = [\<lparr>series_of = ''learning-gpui'', seriesName_of = ''learning gpui '', count_of = 3\<rparr>]
   \<and> int (length (filter (\<lambda>q. isEligible 1000 q \<and> truthy (series (data q)) \<and>
          normalize_str (the (series (data q))) = normalize_str (the (series (data gpuiHello))))
          examplePosts)) = 3"
proof -
  have a: "gpuiHello \<in> set examplePosts" by code_simp
  have b: "isEligible 1000 gpuiHello" by code_simp
  have c: "truthy (series (data gpuiHello))" by code_simp
  have n: "normalize_str (the (series (data gpuiHello))) = normalize_str (the (series (data gpuiAppendix)))"
    by code_simp
  have f: "filter (\<lambda>e. series_of e = normalize_str (the (series (data gpuiHello))))
        (getUniqueSeries (isEligible 1000) normalize_str codeUnitCompare examplePosts)
       = [\<lparr>series_of = ''learning-gpui'', seriesName_of = ''learning gpui '', count_of = 3\<rparr>]"
    by code_simp
  from getUniqueSeries_grouping
         [where p = gpuiHello and pf = "isEligible 1000" and sl = normalize_str
            and lc = codeUnitCompare, OF a b c]
  obtain e where
    one: "filter (\<lambda>e. series_of e = normalize_str (the (series (data gpuiHello))))
        (getUniqueSeries (isEligible 1000) normalize_str codeUnitCompare examplePosts) = [e]"
    and cnt: "count_of e = int (length (filter (\<lambda>q. isEligible 1000 q \<and> truthy (series (data q)) \<and>
          normalize_str (the (series (data q))) = normalize_str (the (series (data gpuiHello))))
          examplePosts))"
    by blast
  have "e = \<lparr>series_of = ''learning-gpui'', seriesName_of = ''learning gpui '', count_of = 3\<rparr>"
    using one unfolding f by simp
  then have "count_of e = 3" by simp
  then have "int (length (filter (\<lambda>q. isEligible 1000 q \<and> truthy (series (data q)) \<and>
          normalize_str (the (series (data q))) = normalize_str (the (series (data gpuiHello))))
          examplePosts)) = 3"
    unfolding cnt .
  with a b c n f show ?thesis by (intro conjI)
qed

text \<open>
  Claim C7. For every collection, the display name of each summary of \<open>getUniqueSeries\<close>
  is the raw series name of the first eligible post, in the order of the input, whose
  series name is non-empty and slugifies to the summary's identifier; later posts of the
  series do not overwrite it.
\<close>

theorem getUniqueSeries_displayName_first:
  "\<forall>e \<in> set (getUniqueSeries pf sl lc posts).
     \<exists>p. find (\<lambda>p. pf p \<and> truthy (series (data p)) \<and>
                  sl (the (series (data p))) = series_of e) posts = Some p
       \<and> seriesName_of e = the (series (data p))"
proof
  fix e assume "e \<in> set (getUniqueSeries pf sl lc posts)"
  from getUniqueSeries_entry [OF this]
  show "\<exists>p. find (\<lambda>p. pf p \<and> truthy (series (data p)) \<and>
                  sl (the (series (data p))) = series_of e) posts = Some p
       \<and> seriesName_of e = the (series (data p))"
    by blast
qed

text \<open>
  On the example collection the first post of ``learning-gpui'' spells the name
  ``learning gpui '', and that is the display name.
\<close>

theorem getUniqueSeries_displayName_first_witness:
  "getUniqueSeries (isEligible 1000) normalize_str codeUnitCompare examplePosts =
     [\<lparr>series_of = ''backend-engineering-in-axum'',
       seriesName_of = ''Backend Engineering in Axum'', count_of = 1\<rparr>,
      \<lparr>series_of = ''learning-gpui'', seriesName_of = ''learning gpui '', count_of = 3\<rparr>]
   \<and> find (\<lambda>p. isEligible 1000 p \<and> truthy (series (data p)) \<and>
               normalize_str (the (series (data p))) = ''learning-gpui'') examplePosts
       = Some gpuiAppendix
   \<and> the (series (data gpuiAppendix)) = ''learning gpui ''"
proof -
  let ?e = "\<lparr>series_of = ''learning-gpui'', seriesName_of = ''learning gpui '', count_of = 3\<rparr>"
  have out: "getUniqueSeries (isEligible 1000) normalize_str codeUnitCompare examplePosts =
     [\<lparr>series_of = ''backend-engineering-in-axum'',
       seriesName_of = ''Backend Engineering in Axum'', count_of = 1\<rparr>, ?e]"
    by code_simp
  have fnd: "find (\<lambda>p. isEligible 1000 p \<and> truthy (series (data p)) \<and>
               normalize_str (the (series (data p))) = ''learning-gpui'') examplePosts
       = Some gpuiAppendix"
    by code_simp
  have mem: "?e \<in> set (getUniqueSeries (isEligible 1000) normalize_str codeUnitCompare examplePosts)"
    unfolding out by simp
  from getUniqueSeries_displayName_first
         [of "isEligible 1000" normalize_str codeUnitCompare examplePosts, THEN bspec, OF mem]
  obtain p where "find (\<lambda>p. isEligible 1000 p \<and> truthy (series (data p)) \<and>
               normalize_str (the (series (data p))) = series_of ?e) examplePosts = Some p"
    and "seriesName_of ?e = the (series (data p))" by blast
  then have "the (series (data gpuiAppendix)) = ''learning gpui ''" using fnd by simp
  with out fnd show ?thesis by (intro conjI)
qed

text \<open>
  Claim C8. For every collection, the result of \<open>getUniqueSeries\<close> has at most one entry
  per identifier and, for a \<^verbatim>\<open>localeCompare\<close> that is a consistent comparator (total and
  transitive), is sorted non-decreasing by display name under it; when no eligible post has
  a non-empty series name the result is the empty list.
\<close>

theorem getUniqueSeries_distinct_sorted:
  assumes tot: "\<forall>a b. lc a b \<le> 0 \<or> lc b a \<le> 0"
      and tr: "\<forall>a b c. lc a b \<le> 0 \<longrightarrow> lc b c \<le> 0 \<longrightarrow> lc a c \<le> 0"
  shows "distinct (map series_of (getUniqueSeries pf sl lc posts))
     \<and> sorted_wrt (\<lambda>a b. lc (seriesName_of a) (seriesName_of b) \<le> 0)
          (getUniqueSeries pf sl lc posts)
     \<and> (filter (\<lambda>p. pf p \<and> truthy (series (data p))) posts = []
          \<longrightarrow> getUniqueSeries pf sl lc posts = [])"
proof (intro conjI impI)
  show "distinct (map series_of (getUniqueSeries pf sl lc posts))"
    by (rule distinct_getUniqueSeries_keys)
  show "sorted_wrt (\<lambda>a b. lc (seriesName_of a) (seriesName_of b) \<le> 0)
          (getUniqueSeries pf sl lc posts)"
    unfolding getUniqueSeries_def Let_def
  proof (rule sorted_array_sort)
    show "lc (seriesName_of a) (seriesName_of b) \<le> 0 \<or> lc (seriesName_of b) (seriesName_of a) \<le> 0"
      for a b :: Series using tot by blast
    show "lc (seriesName_of a) (seriesName_of c) \<le> 0"
      if "lc (seriesName_of a) (seriesName_of b) \<le> 0" "lc (seriesName_of b) (seriesName_of c) \<le> 0"
      for a b c :: Series using that tr by blast
  qed
  show "getUniqueSeries pf sl lc posts = []"
    if "filter (\<lambda>p. pf p \<and> truthy (series (data p))) posts = []"
    using that by (rule getUniqueSeries_empty)
qed

text \<open>
  On the example collection, with comparison by code unit, the two display names come
  out in order; a collection without eligible series-bearing posts gives the empty list.
\<close>

theorem getUniqueSeries_distinct_sorted_witness:
  "distinct (map series_of (getUniqueSeries (isEligible 1000) normalize_str codeUnitCompare examplePosts))
   \<and> sorted_wrt (\<lambda>a b. codeUnitCompare (seriesName_of a) (seriesName_of b) \<le> 0)
        (getUniqueSeries (isEligible 1000) normalize_str codeUnitCompare examplePosts)
   \<and> map seriesName_of (getUniqueSeries (isEligible 1000) normalize_str codeUnitCompare examplePosts)
       = [''Backend Engineering in Axum'', ''learning gpui '']
   \<and> filter (\<lambda>p. isEligible 1000 p \<and> truthy (series (data p))) [aboutPage, untitledNote, gpuiDraft] = []
   \<and> getUniqueSeries (isEligible 1000) normalize_str codeUnitCompare [aboutPage, untitledNote, gpuiDraft] = []"
proof -
  have tot: "\<forall>a b. codeUnitCompare a b \<le> 0 \<or> codeUnitCompare b a \<le> 0"
    by (auto simp: codeUnitCompare_def)
  have tr: "\<forall>a b c. codeUnitCompare a b \<le> 0 \<longrightarrow> codeUnitCompare b c \<le> 0
              \<longrightarrow> codeUnitCompare a c \<le> 0"
    by (auto simp: codeUnitCompare_def split: if_splits)
  have names: "map seriesName_of (getUniqueSeries (isEligible 1000) normalize_str codeUnitCompare examplePosts)
       = [''Backend Engineering in Axum'', ''learning gpui '']"
    by code_simp
  have none: "filter (\<lambda>p. isEligible 1000 p \<and> truthy (series (data p))) [aboutPage, untitledNote, gpuiDraft] = []"
    by code_simp
  note a = getUniqueSeries_distinct_sorted
             [where lc = codeUnitCompare and pf = "isEligible 1000" and sl = normalize_str
                and posts = examplePosts, OF tot tr]
  note b = getUniqueSeries_distinct_sorted
             [where lc = codeUnitCompare and pf = "isEligible 1000" and sl = normalize_str
                and posts = "[aboutPage, untitledNote, gpuiDraft]", OF tot tr]
  have emp:
    "getUniqueSeries (isEligible 1000) normalize_str codeUnitCompare [aboutPage, untitledNote, gpuiDraft] = []"
    by (rule b [THEN conjunct2, THEN conjunct2, THEN mp, OF none])
  from a [THEN conjunct1] a [THEN conjunct2, THEN conjunct1] names none emp
  show ?thesis by (intro conjI)
qed

subsection \<open>The empty series name\<close>

text \<open>
  Claim C9. A post whose series is present but the empty string belongs to no series:
  \<open>getUniqueSeries\<close> gives the same result with the post in the collection as without it (it
  creates no summary and is counted in none), \<open>getPostsBySeries\<close> never returns it, for any
  identifier, and \<open>getSeriesNavigation\<close> on it returns null.
\<close>

theorem empty_series_is_no_series:
  assumes "series (data p) = Some []"
  shows "getUniqueSeries pf sl lc (xs @ p # ys) = getUniqueSeries pf sl lc (xs @ ys)
     \<and> p \<notin> set (getPostsBySeries pf sl posts s)
     \<and> getSeriesNavigation pf sl posts p = None"
proof (intro conjI)
  have nt: "\<not> truthy (series (data p))" using assms by simp
  have "filter (\<lambda>post. truthy (series (data post))) (filter pf (xs @ p # ys)) =
        filter (\<lambda>post. truthy (series (data post))) (filter pf (xs @ ys))"
    using nt by simp
  then show "getUniqueSeries pf sl lc (xs @ p # ys) = getUniqueSeries pf sl lc (xs @ ys)"
    unfolding getUniqueSeries_def by (simp only:)
  show "p \<notin> set (getPostsBySeries pf sl posts s)"
    using nt unfolding set_getPostsBySeries by simp
  show "getSeriesNavigation pf sl posts p = None"
    using nt by (simp add: getSeriesNavigation_def)
qed

text \<open>
  On the example collection, for the post with the empty series name.
\<close>

theorem empty_series_is_no_series_witness:
  "series (data untitledNote) = Some []
   \<and> examplePosts =
       [gpuiAppendix, aboutPage, gpuiInteractivity, axumIntro, gpuiHello] @ untitledNote # [gpuiDraft]
   \<and> getUniqueSeries (isEligible 1000) normalize_str codeUnitCompare examplePosts =
       getUniqueSeries (isEligible 1000) normalize_str codeUnitCompare
         ([gpuiAppendix, aboutPage, gpuiInteractivity, axumIntro, gpuiHello] @ [gpuiDraft])
   \<and> untitledNote \<notin> set (getPostsBySeries (isEligible 1000) normalize_str examplePosts (normalize_str []))
   \<and> getSeriesNavigation (isEligible 1000) normalize_str examplePosts untitledNote = None"
proof -
  have s: "series (data untitledNote) = Some []" by code_simp
  have x: "examplePosts =
       [gpuiAppendix, aboutPage, gpuiInteractivity, axumIntro, gpuiHello] @ untitledNote # [gpuiDraft]"
    by (simp add: examplePosts_def)
  note t = empty_series_is_no_series
      [where p = untitledNote and pf = "isEligible 1000" and sl = normalize_str
         and lc = codeUnitCompare
         and xs = "[gpuiAppendix, aboutPage, gpuiInteractivity, axumIntro, gpuiHello]"
         and ys = "[gpuiDraft]" and posts = examplePosts and s = "normalize_str []", OF s]
  from s x t [THEN conjunct1, folded x] t [THEN conjunct2, THEN conjunct1] t [THEN conjunct2, THEN conjunct2]
  show ?thesis by (intro conjI)
qed

end
